theory Spec2Isabelle
  imports Main
begin

section \<open>Word separation for game titles: \<open>separate_words_enhanced\<close>\<close>

text \<open>
  The development embeds the function \<open>separate_words_enhanced\<close> of \<open>src/g/a.py\<close>
  (lines 51--118). A Python \<open>str\<close> is modelled as a \<open>string\<close>, a list of characters
  whose codes are the code points; the character classes and the case folding below are
  those of Python for the code points 0..255. The proofs use of them only that the
  space is white space. The word list is a set of strings and is only ever asked for
  membership. Positions in a part are natural numbers; \<open>best_match_end\<close> is an
  integer, since the code starts it at \<open>-1\<close>.
\<close>

subsection \<open>Character classes\<close>

definition code :: "char \<Rightarrow> nat" where
  "code c = of_char c"

text \<open>The classes \<open>[a-z]\<close>, \<open>[A-Z]\<close>, \<open>[a-zA-Z]\<close> and \<open>\\d\<close> of the patterns.\<close>

definition is_lower_az :: "char \<Rightarrow> bool" where
  "is_lower_az c = (97 \<le> code c \<and> code c \<le> 122)"

definition is_upper_az :: "char \<Rightarrow> bool" where
  "is_upper_az c = (65 \<le> code c \<and> code c \<le> 90)"

definition is_letter :: "char \<Rightarrow> bool" where
  "is_letter c = (is_lower_az c \<or> is_upper_az c)"

definition is_digit :: "char \<Rightarrow> bool" where
  "is_digit c = (48 \<le> code c \<and> code c \<le> 57)"

text \<open>
  The characters removed by \<open>str.strip()\<close> without argument: tab to carriage return,
  the four separators 0x1C..0x1F, the space, NEL (0x85) and the no-break space (0xA0).
\<close>

definition is_space :: "char \<Rightarrow> bool" where
  "is_space c = ((9 \<le> code c \<and> code c \<le> 13) \<or> (28 \<le> code c \<and> code c \<le> 32)
     \<or> code c = 133 \<or> code c = 160)"

text \<open>
  \<open>str.lower()\<close>: the letters A..Z and the upper-case letters 0xC0..0xDE (the
  multiplication sign 0xD7 apart) move up by 32, every other character stays.
\<close>

definition lower_char :: "char \<Rightarrow> char" where
  "lower_char c =
     (if (65 \<le> code c \<and> code c \<le> 90) \<or> (192 \<le> code c \<and> code c \<le> 222 \<and> code c \<noteq> 215)
      then char_of (code c + 32) else c)"

definition lower :: "string \<Rightarrow> string" where
  "lower s = map lower_char s"

subsection \<open>The string operations of the standard library\<close>

text \<open>
  \<open>re.sub(r'(?<=B)(?=A)', ' ', s)\<close>: both assertions are zero-width, so a space is put
  at every position whose preceding character satisfies \<open>B\<close> and whose following text
  satisfies \<open>A\<close>. The assertions read the subject string, never the inserted spaces.
\<close>

fun sub_between :: "(char \<Rightarrow> bool) \<Rightarrow> (string \<Rightarrow> bool) \<Rightarrow> string \<Rightarrow> string" where
  "sub_between B A [] = []"
| "sub_between B A (c # cs) =
     (if B c \<and> A cs then c # CHR '' '' # sub_between B A cs else c # sub_between B A cs)"

text \<open>The look-aheads \<open>(?=[A-Z])\<close>, \<open>(?=[A-Z][a-z])\<close>, \<open>(?=\\d)\<close> and \<open>(?=[a-zA-Z])\<close>.\<close>

fun ahead1 :: "(char \<Rightarrow> bool) \<Rightarrow> string \<Rightarrow> bool" where
  "ahead1 P [] = False"
| "ahead1 P (c # cs) = P c"

fun ahead2 :: "(char \<Rightarrow> bool) \<Rightarrow> (char \<Rightarrow> bool) \<Rightarrow> string \<Rightarrow> bool" where
  "ahead2 P Q (c # d # cs) = (P c \<and> Q d)"
| "ahead2 P Q cs = False"

text \<open>\<open>re.sub(r' +', ' ', s)\<close>: every maximal run of spaces becomes one space.\<close>

function collapse_spaces :: "string \<Rightarrow> string" where
  "collapse_spaces [] = []"
| "collapse_spaces (c # cs) =
     (if c = CHR '' '' then CHR '' '' # collapse_spaces (dropWhile (\<lambda>d. d = CHR '' '') cs)
      else c # collapse_spaces cs)"
  by pat_completeness auto
termination
  by (relation "measure length") (auto simp: length_dropWhile_le less_Suc_eq_le)

text \<open>\<open>s.strip()\<close>: white space is dropped at both ends.\<close>

definition strip :: "string \<Rightarrow> string" where
  "strip s = rev (dropWhile is_space (rev (dropWhile is_space s)))"

text \<open>
  \<open>s.split(' ')\<close>: the pieces between single spaces, empty pieces kept. The result
  is never the empty list, so the last case below does not arise.
\<close>

fun split_space :: "string \<Rightarrow> string list" where
  "split_space [] = [[]]"
| "split_space (c # cs) =
     (if c = CHR '' '' then [] # split_space cs
      else (case split_space cs of p # ps \<Rightarrow> (c # p) # ps | [] \<Rightarrow> [[c]]))"

text \<open>\<open>' '.join(parts)\<close>.\<close>

fun join_space :: "string list \<Rightarrow> string" where
  "join_space [] = []"
| "join_space [p] = p"
| "join_space (p # q # ps) = p @ CHR '' '' # join_space (q # ps)"

text \<open>The slice \<open>s[a:b]\<close> for \<open>0 \<le> a\<close> and \<open>0 \<le> b\<close>; it never raises.\<close>

definition slice :: "string \<Rightarrow> nat \<Rightarrow> nat \<Rightarrow> string" where
  "slice s a b = take (b - a) (drop a s)"

subsection \<open>Step 1: splitting at case and digit transitions (lines 61--67)\<close>

definition temp_processed :: "string \<Rightarrow> string" where
  "temp_processed text =
     sub_between is_digit (ahead1 is_letter)
       (sub_between is_letter (ahead1 is_digit)
         (sub_between is_upper_az (ahead2 is_upper_az is_lower_az)
           (sub_between is_lower_az (ahead1 is_upper_az) text)))"

definition initial_parts :: "string \<Rightarrow> string list" where
  "initial_parts text = split_space (strip (collapse_spaces (temp_processed text)))"

subsection \<open>Step 2: segmenting a part with the word list (lines 72--115)\<close>

text \<open>
  The body of the inner \<open>for i in range(current_pos, len(part))\<close> loop, on the pair
  \<open>(best_match_end, best_match_word)\<close>.
\<close>

definition probe :: "string set \<Rightarrow> string \<Rightarrow> nat \<Rightarrow> nat \<Rightarrow> int \<times> string \<Rightarrow> int \<times> string" where
  "probe word_list_set part current_pos i best =
     (let sub = slice part current_pos (i + 1) in
      if lower sub \<in> word_list_set then
        (if length sub > length (snd best) then (int (i + 1), sub) else best)
      else best)"

definition best_match :: "string set \<Rightarrow> string \<Rightarrow> nat \<Rightarrow> int \<times> string" where
  "best_match word_list_set part current_pos =
     fold (probe word_list_set part current_pos) [current_pos ..< length part] (- 1, [])"

text \<open>
  The \<open>while current_pos < len(part)\<close> loop. Nothing in its text bounds the number of
  rounds, so it is a partial function: \<open>None\<close> stands for a loop that never ends.
\<close>

partial_function (option) scan_loop ::
  "string set \<Rightarrow> string \<Rightarrow> nat \<Rightarrow> string list \<Rightarrow> string list option" where
  "scan_loop word_list_set part current_pos segmented_sub_parts =
     (if current_pos < length part then
        (case best_match word_list_set part current_pos of
           (best_match_end, best_match_word) \<Rightarrow>
             if best_match_end \<noteq> - 1 then
               scan_loop word_list_set part (nat best_match_end)
                 (segmented_sub_parts @ [best_match_word])
             else Some (segmented_sub_parts @ [drop current_pos part]))
      else Some segmented_sub_parts)"

declare scan_loop.simps [code]

text \<open>
  What one non-empty part contributes to \<open>final_parts\<close> (lines 78--115): the part
  itself when it is a known word, the segments when there are several, the part
  otherwise.
\<close>

definition segment :: "string \<Rightarrow> string set \<Rightarrow> string list option" where
  "segment part word_list_set =
     (if lower part \<in> word_list_set then Some [part]
      else (case scan_loop word_list_set part 0 [] of
              None \<Rightarrow> None
            | Some segmented_sub_parts \<Rightarrow>
                if segmented_sub_parts \<noteq> [] \<and> length segmented_sub_parts > 1
                then Some segmented_sub_parts else Some [part]))"

text \<open>The \<open>for part in initial_parts\<close> loop, threading \<open>final_parts\<close>.\<close>

fun for_parts :: "string set \<Rightarrow> string list \<Rightarrow> string list \<Rightarrow> string list option" where
  "for_parts word_list_set [] final_parts = Some final_parts"
| "for_parts word_list_set (part # rest) final_parts =
     (if part = [] then for_parts word_list_set rest final_parts
      else (case segment part word_list_set of
              None \<Rightarrow> None
            | Some added \<Rightarrow> for_parts word_list_set rest (final_parts @ added)))"

definition separate_words_enhanced :: "string \<Rightarrow> string set \<Rightarrow> string option" where
  "separate_words_enhanced text word_list_set =
     (if text = [] then Some []
      else (case for_parts word_list_set (initial_parts text) [] of
              None \<Rightarrow> None
            | Some final_parts \<Rightarrow> Some (strip (join_space final_parts))))"

subsection \<open>Notions used to state the properties\<close>

text \<open>Removing the space separators of a result.\<close>

definition remove_separators :: "string \<Rightarrow> string" where
  "remove_separators s = filter (\<lambda>c. c \<noteq> CHR '' '') s"

text \<open>A string has a run of spaces when two consecutive characters of it are spaces.\<close>

fun has_space_run :: "string \<Rightarrow> bool" where
  "has_space_run (c # d # cs) = ((c = CHR '' '' \<and> d = CHR '' '') \<or> has_space_run (d # cs))"
| "has_space_run cs = False"

text \<open>
  The tokens of step 1 as the main loop sees them: the loop skips every empty part
  (\<open>if not part: continue\<close>, lines 73--74).
\<close>

definition split_boundaries :: "string \<Rightarrow> string list" where
  "split_boundaries text = filter (\<lambda>part. part \<noteq> []) (initial_parts text)"

subsection \<open>Boundary splitting in the words of the specification\<close>
















section \<open>The greedy scan\<close>

lemma length_slice: "b \<le> length s \<Longrightarrow> length (slice s a b) = b - a"
  by (simp add: slice_def)

lemma slice_append_drop: "a \<le> b \<Longrightarrow> slice s a b @ drop b s = drop a s"
proof -
  assume "a \<le> b"
  then have "drop b s = drop (b - a) (drop a s)" by simp
  then show ?thesis unfolding slice_def by (simp only: append_take_drop_id)
qed

text \<open>
  The inner loop, by induction on the upper end of its range: either nothing matched and
  the pair is still \<open>(-1, "")\<close>, or the pair holds the last (hence longest) match.
\<close>

lemma probe_fold_inv:
  assumes "pos \<le> n" "n \<le> length part"
  shows "(fold (probe kb part pos) [pos ..< n] (- 1, []) = (- 1, [])
            \<and> (\<forall>e. pos < e \<and> e \<le> n \<longrightarrow> lower (slice part pos e) \<notin> kb))
       \<or> (\<exists>e. pos < e \<and> e \<le> n
            \<and> fold (probe kb part pos) [pos ..< n] (- 1, []) = (int e, slice part pos e)
            \<and> lower (slice part pos e) \<in> kb
            \<and> (\<forall>e'. e < e' \<and> e' \<le> n \<longrightarrow> lower (slice part pos e') \<notin> kb))"
  using assms
proof (induction n)
  case 0
  then show ?case by simp
next
  case (Suc n)
  show ?case
  proof (cases "pos = Suc n")
    case True
    then show ?thesis by auto
  next
    case False
    with Suc.prems have le: "pos \<le> n" "n \<le> length part" "Suc n \<le> length part" by simp_all
    have upt: "[pos ..< Suc n] = [pos ..< n] @ [n]" using le by simp
    let ?st = "fold (probe kb part pos) [pos ..< n] (- 1, [])"
    have step: "fold (probe kb part pos) [pos ..< Suc n] (- 1, []) = probe kb part pos n ?st"
      using le by (simp add: upt)
    have len: "length (slice part pos (Suc n)) = Suc n - pos"
      using le by (simp add: length_slice)
    show ?thesis
    proof (cases "lower (slice part pos (Suc n)) \<in> kb")
      case hit: True
      have "length (snd ?st) < length (slice part pos (Suc n))"
        using Suc.IH [OF le(1,2)]
      proof (elim disjE conjE exE)
        assume "?st = (- 1, [])"
        then show ?thesis using len le by simp
      next
        fix e assume e: "pos < e" "e \<le> n" "?st = (int e, slice part pos e)"
        then show ?thesis using len le by (simp add: length_slice)
      qed
      then have "probe kb part pos n ?st = (int (Suc n), slice part pos (Suc n))"
        using hit by (simp add: probe_def)
      then have "fold (probe kb part pos) [pos ..< Suc n] (- 1, []) = (int (Suc n), slice part pos (Suc n))"
        using step by simp
      moreover have "pos < Suc n" "Suc n \<le> Suc n" using le by simp_all
      moreover have "\<forall>e'. Suc n < e' \<and> e' \<le> Suc n \<longrightarrow> lower (slice part pos e') \<notin> kb" by auto
      ultimately show ?thesis using hit by blast
    next
      case miss: False
      then have same: "probe kb part pos n ?st = ?st"
        by (simp add: probe_def)
      from Suc.IH [OF le(1,2)] show ?thesis
      proof (elim disjE conjE exE)
        assume a: "?st = (- 1, [])"
          "\<forall>e. pos < e \<and> e \<le> n \<longrightarrow> lower (slice part pos e) \<notin> kb"
        then have "\<forall>e. pos < e \<and> e \<le> Suc n \<longrightarrow> lower (slice part pos e) \<notin> kb"
          using miss by (auto simp: le_Suc_eq)
        then show ?thesis using a step same by simp
      next
        fix e assume e: "pos < e" "e \<le> n" "?st = (int e, slice part pos e)"
          "lower (slice part pos e) \<in> kb"
          "\<forall>e'. e < e' \<and> e' \<le> n \<longrightarrow> lower (slice part pos e') \<notin> kb"
        then have "\<forall>e'. e < e' \<and> e' \<le> Suc n \<longrightarrow> lower (slice part pos e') \<notin> kb"
          using miss by (auto simp: le_Suc_eq)
        then show ?thesis using e step same by auto
      qed
    qed
  qed
qed

lemma best_match_cases:
  "(best_match kb part pos = (- 1, [])
      \<and> (\<forall>e. pos < e \<and> e \<le> length part \<longrightarrow> lower (slice part pos e) \<notin> kb))
   \<or> (\<exists>e. pos < e \<and> e \<le> length part
        \<and> best_match kb part pos = (int e, slice part pos e)
        \<and> lower (slice part pos e) \<in> kb
        \<and> (\<forall>e'. e < e' \<and> e' \<le> length part \<longrightarrow> lower (slice part pos e') \<notin> kb))"
proof (cases "pos \<le> length part")
  case True
  from probe_fold_inv [OF True order_refl, of kb] show ?thesis
    by (simp only: best_match_def)
next
  case False
  then show ?thesis by (auto simp: best_match_def)
qed

lemma best_match_miss:
  assumes "\<forall>e. pos < e \<and> e \<le> length part \<longrightarrow> lower (slice part pos e) \<notin> kb"
  shows "best_match kb part pos = (- 1, [])"
  using best_match_cases [of kb part pos] assms by auto

lemma best_match_hit:
  assumes "pos < e" "e \<le> length part" "lower (slice part pos e) \<in> kb"
    and "\<forall>e'. e < e' \<and> e' \<le> length part \<longrightarrow> lower (slice part pos e') \<notin> kb"
  shows "best_match kb part pos = (int e, slice part pos e)"
proof -
  from best_match_cases [of kb part pos] assms(1-3)
  obtain m where m: "pos < m" "m \<le> length part"
      "best_match kb part pos = (int m, slice part pos m)"
      "lower (slice part pos m) \<in> kb"
      "\<forall>e'. m < e' \<and> e' \<le> length part \<longrightarrow> lower (slice part pos e') \<notin> kb"
    by auto
  have "\<not> m < e" using m(5) assms(1-3) by auto
  moreover have "\<not> e < m" using assms(4) m by auto
  ultimately have "m = e" by simp
  then show ?thesis using m(3) by simp
qed

lemma scan_loop_miss:
  assumes "pos < length part"
    and "\<forall>e. pos < e \<and> e \<le> length part \<longrightarrow> lower (slice part pos e) \<notin> kb"
  shows "scan_loop kb part pos acc = Some (acc @ [drop pos part])"
  using assms(1) best_match_miss [OF assms(2)]
  by (subst scan_loop.simps) simp

lemma scan_loop_hit:
  assumes "pos < length part" "pos < e" "e \<le> length part" "lower (slice part pos e) \<in> kb"
    and "\<forall>e'. e < e' \<and> e' \<le> length part \<longrightarrow> lower (slice part pos e') \<notin> kb"
  shows "scan_loop kb part pos acc = scan_loop kb part e (acc @ [slice part pos e])"
  using assms(1) best_match_hit [OF assms(2-5)]
  by (subst scan_loop.simps) simp

lemma scan_loop_end: "length part \<le> pos \<Longrightarrow> scan_loop kb part pos acc = Some acc"
  by (subst scan_loop.simps) simp

text \<open>
  The loop returns from every position, and the segments it adds make up the rest of
  the part, are non-empty, and are known words except possibly the last.
\<close>

lemma scan_loop_result:
  "pos \<le> length part \<Longrightarrow> \<exists>r. scan_loop kb part pos acc = Some (acc @ r) \<and> concat r = drop pos part
     \<and> [] \<notin> set r \<and> (\<forall>x \<in> set (butlast r). lower x \<in> kb)"
proof (induction "length part - pos" arbitrary: pos acc rule: less_induct)
  case less
  show ?case
  proof (cases "pos < length part")
    case False
    then have "scan_loop kb part pos acc = Some (acc @ [])" "drop pos part = []"
      by (simp_all add: scan_loop_end)
    then show ?thesis by fastforce
  next
    case True
    from best_match_cases [of kb part pos] show ?thesis
    proof (elim disjE conjE exE)
      assume "\<forall>e. pos < e \<and> e \<le> length part \<longrightarrow> lower (slice part pos e) \<notin> kb"
      then have "scan_loop kb part pos acc = Some (acc @ [drop pos part])"
        by (rule scan_loop_miss [OF True])
      moreover have "drop pos part \<noteq> []" using True by simp
      ultimately show ?thesis by fastforce
    next
      fix e assume e: "pos < e" "e \<le> length part" "lower (slice part pos e) \<in> kb"
        "\<forall>e'. e < e' \<and> e' \<le> length part \<longrightarrow> lower (slice part pos e') \<notin> kb"
      have step: "scan_loop kb part pos acc = scan_loop kb part e (acc @ [slice part pos e])"
        by (rule scan_loop_hit [OF True e])
      have "length part - e < length part - pos" using e True by arith
      from less(1) [OF this e(2), of "acc @ [slice part pos e]"]
      obtain r where r: "scan_loop kb part e (acc @ [slice part pos e]) = Some ((acc @ [slice part pos e]) @ r)"
        "concat r = drop e part" "[] \<notin> set r" "\<forall>x \<in> set (butlast r). lower x \<in> kb"
        by blast
      let ?r = "slice part pos e # r"
      have ne: "slice part pos e \<noteq> []" using e by (simp add: slice_def)
      have cat: "concat ?r = drop pos part"
        using r(2) e(1) by (simp add: slice_append_drop)
      have "scan_loop kb part pos acc = Some (acc @ ?r)" using step r(1) by simp
      moreover have "[] \<notin> set ?r" using ne r(3) by auto
      moreover have "\<forall>x \<in> set (butlast ?r). lower x \<in> kb" using r(4) e(3) by auto
      ultimately show ?thesis using cat by blast
    qed
  qed
qed

text \<open>
  The segments so far are only carried along: the scan from a cursor adds the same
  segments to any list. With a match at the cursor, they are the longest match followed
  by the segments of the scan from the end of the match.
\<close>

lemma scan_loop_acc:
  "pos \<le> length part \<Longrightarrow> scan_loop kb part pos [] = Some r
     \<Longrightarrow> scan_loop kb part pos acc = Some (acc @ r)"
proof (induction "length part - pos" arbitrary: pos acc r rule: less_induct)
  case less
  show ?case
  proof (cases "pos < length part")
    case False
    then show ?thesis using less.prems(2) by (simp add: scan_loop_end)
  next
    case True
    from best_match_cases [of kb part pos] show ?thesis
    proof (elim disjE conjE exE)
      assume miss: "\<forall>e. pos < e \<and> e \<le> length part \<longrightarrow> lower (slice part pos e) \<notin> kb"
      then show ?thesis
        using less.prems(2) scan_loop_miss [OF True miss, of "[]"] scan_loop_miss [OF True miss, of acc]
        by simp
    next
      fix e assume e: "pos < e" "e \<le> length part" "lower (slice part pos e) \<in> kb"
        "\<forall>e'. e < e' \<and> e' \<le> length part \<longrightarrow> lower (slice part pos e') \<notin> kb"
      let ?w = "slice part pos e"
      have d: "length part - e < length part - pos" using e True by arith
      obtain r' where r': "scan_loop kb part e [] = Some r'"
        using scan_loop_result [OF e(2), of kb "[]"] by auto
      have "scan_loop kb part pos [] = scan_loop kb part e ([] @ [?w])"
        by (rule scan_loop_hit [OF True e])
      also have "\<dots> = Some ([?w] @ r')"
        using less.hyps [OF d e(2) r', of "[?w]"] by simp
      finally have r: "r = ?w # r'" using less.prems(2) by simp
      have "scan_loop kb part pos acc = scan_loop kb part e (acc @ [?w])"
        by (rule scan_loop_hit [OF True e])
      also have "\<dots> = Some ((acc @ [?w]) @ r')"
        by (rule less.hyps [OF d e(2) r'])
      finally show ?thesis using r by simp
    qed
  qed
qed

lemma scan_loop_longest:
  assumes "pos < length part" "pos < e" "e \<le> length part" "lower (slice part pos e) \<in> kb"
    and "\<forall>e'. e < e' \<and> e' \<le> length part \<longrightarrow> lower (slice part pos e') \<notin> kb"
  shows "\<exists>r. scan_loop kb part pos acc = Some (acc @ slice part pos e # r)
     \<and> scan_loop kb part e [] = Some r \<and> concat r = drop e part"
proof -
  let ?w = "slice part pos e"
  from scan_loop_result [OF assms(3), of kb "[]"]
  obtain r where r: "scan_loop kb part e [] = Some r" "concat r = drop e part" by auto
  have "scan_loop kb part pos acc = scan_loop kb part e (acc @ [?w])"
    by (rule scan_loop_hit [OF assms])
  also have "\<dots> = Some ((acc @ [?w]) @ r)"
    by (rule scan_loop_acc [OF assms(3) r(1)])
  finally show ?thesis using r by simp
qed

section \<open>Strings: stripping, splitting and joining\<close>

lemma is_space_space: "is_space CHR '' ''"
  by code_simp

lemma not_space_if: "\<not> is_space c \<Longrightarrow> c \<noteq> CHR '' ''"
  using is_space_space by auto

subsection \<open>strip\<close>

lemma strip_Nil: "strip [] = []"
  by (simp add: strip_def)

lemma strip_ends:
  "strip s = [] \<or> (\<not> is_space (hd (strip s)) \<and> \<not> is_space (last (strip s)))"
proof (cases "strip s = []")
  case True
  then show ?thesis by simp
next
  case False
  let ?a = "dropWhile is_space s"
  let ?b = "dropWhile is_space (rev ?a)"
  have b: "?b \<noteq> []" using False by (simp add: strip_def)
  then have "\<not> is_space (hd ?b)" by (rule hd_dropWhile)
  then have l: "\<not> is_space (last (strip s))" using b by (simp add: strip_def last_rev)
  have a: "?a \<noteq> []"
  proof
    assume "?a = []"
    then have "?b = dropWhile is_space (rev [])" by (simp only:)
    with b show False by simp
  qed
  then have ha: "\<not> is_space (hd ?a)" by (rule hd_dropWhile)
  have "rev ?a = takeWhile is_space (rev ?a) @ ?b" by simp
  then have "?a = rev ?b @ rev (takeWhile is_space (rev ?a))"
    by (metis rev_append rev_rev_ident)
  then have "hd ?a = hd (rev ?b)" using b by (metis hd_append2 rev_is_Nil_conv)
  then have "\<not> is_space (hd (strip s))" using ha by (simp add: strip_def)
  with l show ?thesis by simp
qed

lemma strip_id:
  assumes "s = [] \<or> (\<not> is_space (hd s) \<and> \<not> is_space (last s))"
  shows "strip s = s"
proof (cases "s = []")
  case True
  then show ?thesis by (simp add: strip_def)
next
  case False
  with assms have h: "\<not> is_space (hd s)" "\<not> is_space (last s)" by simp_all
  have keep: "dropWhile is_space t = t" if "t \<noteq> []" "\<not> is_space (hd t)" for t
    using that by (cases t) simp_all
  have 1: "dropWhile is_space s = s" using False h(1) by (rule keep)
  have "hd (rev s) = last s" using False by (simp add: hd_rev)
  then have 2: "dropWhile is_space (rev s) = rev s" using False h(2) by (intro keep) simp_all
  show ?thesis by (simp add: strip_def 1 2)
qed

lemma remove_separators_dropWhile:
  "remove_separators (dropWhile is_space s) = dropWhile is_space (remove_separators s)"
  by (induction s) (auto simp: remove_separators_def is_space_space)

lemma remove_separators_strip: "remove_separators (strip s) = strip (remove_separators s)"
proof -
  have r: "remove_separators (rev t) = rev (remove_separators t)" for t
    by (simp add: remove_separators_def rev_filter)
  show ?thesis
    by (simp add: strip_def r remove_separators_dropWhile)
qed

subsection \<open>The substitutions\<close>

lemma remove_separators_sub_between:
  "remove_separators (sub_between B A s) = remove_separators s"
  by (induction s) (simp_all add: remove_separators_def)

lemma remove_separators_temp_processed:
  "remove_separators (temp_processed s) = remove_separators s"
  by (simp add: temp_processed_def remove_separators_sub_between)

lemma remove_separators_dropWhile_space:
  "remove_separators (dropWhile (\<lambda>d. d = CHR '' '') s) = remove_separators s"
  by (induction s) (simp_all add: remove_separators_def)

lemma remove_separators_collapse_spaces:
  "remove_separators (collapse_spaces s) = remove_separators s"
proof (induction s rule: collapse_spaces.induct)
  case 1
  then show ?case by simp
next
  case (2 c cs)
  show ?case
  proof (cases "c = CHR '' ''")
    case True
    then have "remove_separators (collapse_spaces (c # cs))
        = remove_separators (collapse_spaces (dropWhile (\<lambda>d. d = CHR '' '') cs))"
      by (simp add: remove_separators_def)
    also have "\<dots> = remove_separators (dropWhile (\<lambda>d. d = CHR '' '') cs)"
      using 2(1) True by simp
    also have "\<dots> = remove_separators (c # cs)"
      using True by (simp add: remove_separators_dropWhile_space) (simp add: remove_separators_def)
    finally show ?thesis .
  next
    case False
    then show ?thesis using 2(2) by (simp add: remove_separators_def)
  qed
qed

subsection \<open>split and join\<close>

lemma split_space_not_Nil: "split_space s \<noteq> []"
  by (induction s) (auto split: list.splits)

lemma concat_split_space: "concat (split_space s) = remove_separators s"
proof (induction s)
  case Nil
  then show ?case by (simp add: remove_separators_def)
next
  case (Cons c cs)
  obtain p ps where p: "split_space cs = p # ps"
    using split_space_not_Nil [of cs] by (cases "split_space cs") auto
  with Cons show ?case by (simp add: remove_separators_def)
qed

lemma remove_separators_join_space:
  "remove_separators (join_space ps) = remove_separators (concat ps)"
  by (induction ps rule: join_space.induct) (simp_all add: remove_separators_def)

lemma join_space_Nil_iff: "[] \<notin> set ps \<Longrightarrow> (join_space ps = []) = (ps = [])"
  by (induction ps rule: join_space.induct) auto

lemma hd_join_space: "[] \<notin> set ps \<Longrightarrow> hd (join_space ps) = hd (concat ps)"
  by (induction ps rule: join_space.induct) auto

lemma last_join_space: "[] \<notin> set ps \<Longrightarrow> last (join_space ps) = last (concat ps)"
proof (induction ps rule: join_space.induct)
  case (3 p q ps)
  then have "join_space (q # ps) \<noteq> []" "concat (q # ps) \<noteq> []"
    using join_space_Nil_iff [of "q # ps"] by auto
  with 3 show ?case by simp
qed simp_all

section \<open>The main loop and the result\<close>

lemma segment_result:
  "\<exists>r. segment t kb = Some r \<and> concat r = t \<and> (t \<noteq> [] \<longrightarrow> [] \<notin> set r)
     \<and> (\<forall>x \<in> set (butlast r). lower x \<in> kb)"
proof (cases "lower t \<in> kb")
  case True
  then show ?thesis by (simp add: segment_def)
next
  case False
  from scan_loop_result [of 0 t kb "[]"]
  obtain r where r: "scan_loop kb t 0 [] = Some r" "concat r = t" "[] \<notin> set r"
      "\<forall>x \<in> set (butlast r). lower x \<in> kb"
    by auto
  show ?thesis
  proof (cases "1 < length r")
    case True
    then have "segment t kb = Some r" using False r(1) by (auto simp: segment_def)
    then show ?thesis using r by simp
  next
    case False
    then have "segment t kb = Some [t]" using \<open>lower t \<notin> kb\<close> r(1) by (simp add: segment_def)
    then show ?thesis by simp
  qed
qed

lemma for_parts_result:
  "\<exists>r. for_parts kb ps acc = Some (acc @ r) \<and> concat r = concat ps \<and> [] \<notin> set r"
proof (induction ps arbitrary: acc)
  case Nil
  then show ?case by simp
next
  case (Cons part rest)
  show ?case
  proof (cases "part = []")
    case True
    with Cons [of acc] show ?thesis by simp
  next
    case False
    from segment_result [of part kb] False
    obtain a where a: "segment part kb = Some a" "concat a = part" "[] \<notin> set a" by auto
    from Cons [of "acc @ a"]
    obtain r where r: "for_parts kb rest (acc @ a) = Some ((acc @ a) @ r)"
        "concat r = concat rest" "[] \<notin> set r"
      by auto
    have "for_parts kb (part # rest) acc = Some (acc @ (a @ r))"
      using False a(1) r(1) by simp
    moreover have "concat (a @ r) = concat (part # rest)" using a(2) r(2) by simp
    moreover have "[] \<notin> set (a @ r)" using a(3) r(3) by simp
    ultimately show ?thesis by blast
  qed
qed

lemma for_parts_skips_empty:
  "for_parts kb ps acc = for_parts kb (filter (\<lambda>part. part \<noteq> []) ps) acc"
proof (induction ps arbitrary: acc)
  case Nil
  then show ?case by simp
next
  case (Cons part rest)
  then show ?case by (cases "segment part kb") simp_all
qed

lemma concat_initial_parts:
  "concat (initial_parts text) = strip (remove_separators text)"
  by (simp add: initial_parts_def concat_split_space remove_separators_strip
      remove_separators_collapse_spaces remove_separators_temp_processed)

text \<open>
  The final parts start and end as the stripped text of step 1 does, so the last
  \<open>strip()\<close> of the function finds nothing to remove.
\<close>

lemma ends_remove_separators:
  assumes "x \<noteq> []" "\<not> is_space (hd x)" "\<not> is_space (last x)"
  shows "remove_separators x \<noteq> [] \<and> hd (remove_separators x) = hd x
     \<and> last (remove_separators x) = last x"
proof -
  from assms obtain c cs where x: "x = c # cs" by (cases x) auto
  with assms have c: "c \<noteq> CHR '' ''" using not_space_if by auto
  have l: "last x \<noteq> CHR '' ''" using assms not_space_if by auto
  have 1: "remove_separators x = c # remove_separators cs"
    using x c by (simp add: remove_separators_def)
  obtain ys where ys: "x = ys @ [last x]" using assms(1) by (metis append_butlast_last_id)
  have "remove_separators x = remove_separators ys @ [last x]"
    using l by (subst ys) (simp add: remove_separators_def)
  then have "last (remove_separators x) = last x" by simp
  with 1 x show ?thesis by simp
qed

lemma final_parts_ends:
  assumes "concat fp = concat (initial_parts text)" "[] \<notin> set fp"
  shows "join_space fp = [] \<or>
     (\<not> is_space (hd (join_space fp)) \<and> \<not> is_space (last (join_space fp)))"
proof -
  let ?x = "strip (collapse_spaces (temp_processed text))"
  have cat: "concat fp = remove_separators ?x"
    using assms(1) by (simp add: initial_parts_def concat_split_space)
  show ?thesis
  proof (cases "?x = []")
    case True
    then have "concat fp = []" using cat by (simp add: remove_separators_def)
    then have "fp = []" using assms(2) by (cases fp) auto
    then show ?thesis by simp
  next
    case False
    with strip_ends [of "collapse_spaces (temp_processed text)"]
    have e: "\<not> is_space (hd ?x)" "\<not> is_space (last ?x)" by simp_all
    from ends_remove_separators [OF False e] cat
    have "hd (concat fp) = hd ?x" "last (concat fp) = last ?x" by simp_all
    then show ?thesis using e assms(2) by (simp add: hd_join_space last_join_space)
  qed
qed

lemma separate_result:
  assumes "text \<noteq> []"
  shows "\<exists>fp. for_parts kb (initial_parts text) [] = Some fp
     \<and> separate_words_enhanced text kb = Some (join_space fp)
     \<and> concat fp = concat (initial_parts text) \<and> [] \<notin> set fp"
proof -
  from for_parts_result [of kb "initial_parts text" "[]"]
  obtain fp where fp: "for_parts kb (initial_parts text) [] = Some fp"
      "concat fp = concat (initial_parts text)" "[] \<notin> set fp"
    by auto
  have "strip (join_space fp) = join_space fp"
    by (rule strip_id) (rule final_parts_ends [OF fp(2,3)])
  then have "separate_words_enhanced text kb = Some (join_space fp)"
    using assms fp(1) by (simp add: separate_words_enhanced_def)
  with fp show ?thesis by blast
qed

subsection \<open>Runs of spaces, and the empty word list\<close>

lemma no_space_no_run: "CHR '' '' \<notin> set p \<Longrightarrow> \<not> has_space_run p"
  by (induction p rule: has_space_run.induct) auto

lemma has_space_run_Cons: "c \<noteq> CHR '' '' \<Longrightarrow> has_space_run (c # cs) = has_space_run cs"
  by (cases cs) auto

lemma has_space_run_append:
  "CHR '' '' \<notin> set p \<Longrightarrow> has_space_run (p @ y) = has_space_run y"
  by (induction p) (auto simp: has_space_run_Cons)

lemma has_space_run_space:
  "z \<noteq> [] \<Longrightarrow> hd z \<noteq> CHR '' '' \<Longrightarrow> has_space_run (CHR '' '' # z) = has_space_run z"
  by (cases z) auto

lemma join_space_no_run:
  "[] \<notin> set ps \<Longrightarrow> \<forall>p \<in> set ps. CHR '' '' \<notin> set p \<Longrightarrow> \<not> has_space_run (join_space ps)"
proof (induction ps rule: join_space.induct)
  case 1
  then show ?case by simp
next
  case (2 p)
  then show ?case by (simp add: no_space_no_run)
next
  case (3 p q ps)
  let ?z = "join_space (q # ps)"
  have q: "q \<noteq> []" "CHR '' '' \<notin> set q" using 3(2,3) by auto
  have z: "?z \<noteq> []" using 3(2) join_space_Nil_iff [of "q # ps"] by auto
  have "hd ?z = hd q" using 3(2) q by (simp add: hd_join_space)
  then have h: "hd ?z \<noteq> CHR '' ''" using q by (cases q) auto
  have "\<not> has_space_run ?z" using 3 by simp
  then have "\<not> has_space_run (CHR '' '' # ?z)" using z h by (simp add: has_space_run_space)
  moreover have "CHR '' '' \<notin> set p" using 3(3) by simp
  ultimately show ?case by (simp add: has_space_run_append)
qed

lemma remove_separators_no_space: "CHR '' '' \<notin> set (remove_separators s)"
  by (simp add: remove_separators_def)

lemma remove_separators_id: "CHR '' '' \<notin> set s \<Longrightarrow> remove_separators s = s"
  by (auto simp: remove_separators_def filter_id_conv)

lemma final_parts_no_space:
  assumes "concat fp = concat (initial_parts text)"
  shows "\<forall>p \<in> set fp. CHR '' '' \<notin> set p"
proof -
  have "CHR '' '' \<notin> set (concat fp)"
    using assms by (simp only: initial_parts_def concat_split_space remove_separators_no_space not_False_eq_True)
  then show ?thesis by auto
qed



section \<open>Spaces and white space of the text\<close>

subsection \<open>White space and the substitutions\<close>

lemma is_space_not_class:
  assumes "is_space w"
  shows "\<not> is_lower_az w" "\<not> is_upper_az w" "\<not> is_letter w" "\<not> is_digit w"
  using assms
  by (auto simp: is_space_def is_lower_az_def is_upper_az_def is_letter_def is_digit_def)

lemma ahead1_ws:
  "\<not> P w \<Longrightarrow> ahead1 P (cs @ w # rest) = ahead1 P cs"
  by (cases cs) simp_all

lemma ahead2_ws:
  assumes "\<not> P w" "\<not> Q w"
  shows "ahead2 P Q (cs @ w # rest) = ahead2 P Q cs"
proof (cases cs)
  case Nil
  then show ?thesis using assms by (cases rest) simp_all
next
  case (Cons c ds)
  then show ?thesis using assms by (cases ds) simp_all
qed

lemma sub_between_ws:
  assumes "\<not> B w" and "\<And>cs. A (cs @ w # rest) = A cs"
  shows "sub_between B A (u @ w # rest) = sub_between B A u @ w # sub_between B A rest"
  using assms by (induction u) simp_all

lemma temp_processed_ws:
  assumes "is_space w"
  shows "temp_processed (u @ w # rest) = temp_processed u @ w # temp_processed rest"
proof -
  note n = is_space_not_class [OF assms]
  let ?p1 = "sub_between is_lower_az (ahead1 is_upper_az)"
  let ?p2 = "sub_between is_upper_az (ahead2 is_upper_az is_lower_az)"
  let ?p3 = "sub_between is_letter (ahead1 is_digit)"
  let ?p4 = "sub_between is_digit (ahead1 is_letter)"
  have 1: "?p1 (x @ w # y) = ?p1 x @ w # ?p1 y" for x y
    by (rule sub_between_ws) (simp_all add: n ahead1_ws)
  have 2: "?p2 (x @ w # y) = ?p2 x @ w # ?p2 y" for x y
    by (rule sub_between_ws) (simp_all add: n ahead2_ws)
  have 3: "?p3 (x @ w # y) = ?p3 x @ w # ?p3 y" for x y
    by (rule sub_between_ws) (simp_all add: n ahead1_ws)
  have 4: "?p4 (x @ w # y) = ?p4 x @ w # ?p4 y" for x y
    by (rule sub_between_ws) (simp_all add: n ahead1_ws)
  show ?thesis by (simp only: temp_processed_def 1 2 3 4)
qed

lemma temp_processed_Nil: "temp_processed [] = []"
  by (simp add: temp_processed_def)

lemma temp_processed_all_ws:
  "\<forall>c \<in> set ws. is_space c \<Longrightarrow> temp_processed (ws @ x) = ws @ temp_processed x"
proof (induction ws)
  case Nil
  then show ?case by simp
next
  case (Cons w ws)
  then have "temp_processed ([] @ w # (ws @ x)) = temp_processed [] @ w # temp_processed (ws @ x)"
    by (intro temp_processed_ws) simp
  with Cons show ?case by (simp add: temp_processed_Nil)
qed

lemma temp_processed_ws_end:
  assumes "\<forall>c \<in> set ws. is_space c"
  shows "temp_processed (x @ ws) = temp_processed x @ ws"
proof (cases ws)
  case Nil
  then show ?thesis by simp
next
  case (Cons w rest)
  with assms have w: "is_space w" and r: "\<forall>c \<in> set rest. is_space c" by simp_all
  have "temp_processed rest = rest"
    using temp_processed_all_ws [OF r, of "[]"] by (simp add: temp_processed_Nil)
  then show ?thesis using temp_processed_ws [OF w, of x rest] Cons by simp
qed

lemma temp_processed_spaces:
  "temp_processed (u @ replicate (Suc n) CHR '' '' @ v)
     = temp_processed u @ replicate (Suc n) CHR '' '' @ temp_processed v"
proof -
  have r: "\<forall>c \<in> set (replicate n CHR '' ''). is_space c" by (simp add: is_space_space)
  have "temp_processed (u @ CHR '' '' # (replicate n CHR '' '' @ v))
      = temp_processed u @ CHR '' '' # temp_processed (replicate n CHR '' '' @ v)"
    by (rule temp_processed_ws [OF is_space_space])
  then show ?thesis by (simp add: temp_processed_all_ws [OF r])
qed

lemma sub_between_Nil_iff: "(sub_between B A x = []) = (x = [])"
  by (cases x) simp_all

lemma hd_sub_between: "hd (sub_between B A x) = hd x"
  by (cases x) simp_all

lemma last_sub_between: "\<not> A [] \<Longrightarrow> last (sub_between B A x) = last x"
  by (induction x) (simp_all add: sub_between_Nil_iff)

lemma temp_processed_Nil_iff: "(temp_processed x = []) = (x = [])"
  by (simp add: temp_processed_def sub_between_Nil_iff)

lemma hd_temp_processed: "hd (temp_processed x) = hd x"
  by (simp add: temp_processed_def hd_sub_between)

lemma last_temp_processed: "last (temp_processed x) = last x"
  by (simp add: temp_processed_def last_sub_between)

subsection \<open>Collapsing runs of spaces\<close>

lemma dropWhile_keep: "b = [] \<or> \<not> P (hd b) \<Longrightarrow> dropWhile P b = b"
  by (cases b) auto

lemma dropWhile_append_keep:
  "b = [] \<or> \<not> P (hd b) \<Longrightarrow> dropWhile P (a @ b) = dropWhile P a @ b"
  by (induction a) (simp_all add: dropWhile_keep)

lemma collapse_spaces_append_hd:
  "b = [] \<or> hd b \<noteq> CHR '' '' \<Longrightarrow>
     collapse_spaces (a @ b) = collapse_spaces a @ collapse_spaces b"
proof (induction a rule: collapse_spaces.induct)
  case 1
  then show ?case by simp
next
  case (2 c cs)
  show ?case
  proof (cases "c = CHR '' ''")
    case True
    have "dropWhile (\<lambda>d. d = CHR '' '') (cs @ b) = dropWhile (\<lambda>d. d = CHR '' '') cs @ b"
      using 2(3) by (intro dropWhile_append_keep) simp
    then show ?thesis using True 2(1) [OF True 2(3)] by simp
  next
    case False
    then show ?thesis using 2(2) [OF False 2(3)] by simp
  qed
qed

lemma collapse_spaces_snoc:
  "c \<noteq> CHR '' '' \<Longrightarrow> collapse_spaces (a @ [c]) = collapse_spaces a @ [c]"
  using collapse_spaces_append_hd [of "[c]" a] by simp

lemma collapse_spaces_append_last:
  assumes "a = [] \<or> last a \<noteq> CHR '' ''"
  shows "collapse_spaces (a @ b) = collapse_spaces a @ collapse_spaces b"
proof (cases "a = []")
  case True
  then show ?thesis by simp
next
  case False
  with assms have l: "last a \<noteq> CHR '' ''" by simp
  have a: "a = butlast a @ [last a]" using False by simp
  have "collapse_spaces (a @ b) = collapse_spaces (butlast a @ (last a # b))"
    by (subst a) simp
  also have "\<dots> = collapse_spaces (butlast a) @ collapse_spaces (last a # b)"
    using l by (intro collapse_spaces_append_hd) simp
  also have "\<dots> = collapse_spaces (butlast a) @ [last a] @ collapse_spaces b"
    using l by simp
  also have "\<dots> = collapse_spaces (butlast a @ [last a]) @ collapse_spaces b"
    using l by (simp add: collapse_spaces_snoc)
  finally show ?thesis using a by simp
qed

lemma collapse_spaces_replicate:
  assumes "y = [] \<or> hd y \<noteq> CHR '' ''"
  shows "collapse_spaces (replicate (Suc n) CHR '' '' @ y) = CHR '' '' # collapse_spaces y"
proof -
  have "dropWhile (\<lambda>d. d = CHR '' '') (replicate n CHR '' '' @ y) = y"
    using assms by (induction n) (simp_all add: dropWhile_keep)
  then show ?thesis by simp
qed

lemma collapse_spaces_Nil_iff: "(collapse_spaces x = []) = (x = [])"
  by (cases x) simp_all

lemma hd_collapse_spaces: "hd (collapse_spaces x) = hd x"
  by (cases x) simp_all

lemma last_collapse_spaces:
  assumes "x \<noteq> []" "last x \<noteq> CHR '' ''"
  shows "last (collapse_spaces x) = last x"
proof -
  have "collapse_spaces (butlast x @ [last x]) = collapse_spaces (butlast x) @ [last x]"
    using assms(2) by (rule collapse_spaces_snoc)
  then show ?thesis using assms(1) by simp
qed

lemma set_collapse_spaces: "set (collapse_spaces x) \<subseteq> set x"
proof (induction x rule: collapse_spaces.induct)
  case 1
  then show ?case by simp
next
  case (2 c cs)
  have "set (dropWhile (\<lambda>d. d = CHR '' '') cs) \<subseteq> set cs"
    by (rule set_dropWhileD [THEN subsetI])
  with 2 show ?case by auto
qed

subsection \<open>Stripping\<close>

lemma strip_ws_around:
  assumes "\<forall>c \<in> set a. is_space c" "\<forall>c \<in> set b. is_space c"
  shows "strip (a @ z @ b) = strip z"
proof -
  have 1: "dropWhile is_space (a @ z @ b) = dropWhile is_space (z @ b)"
    using assms(1) by (simp add: dropWhile_append2)
  have d: "\<exists>k. dropWhile is_space (z @ b) = dropWhile is_space z @ k \<and> (\<forall>c \<in> set k. is_space c)"
  proof (cases "\<forall>c \<in> set z. is_space c")
    case True
    then have zb: "\<forall>c \<in> set (z @ b). is_space c" using assms(2) by auto
    have "dropWhile is_space (z @ b) = []"
      using zb by (simp only: dropWhile_eq_Nil_conv)
    moreover have "dropWhile is_space z = []"
      using True by (simp only: dropWhile_eq_Nil_conv)
    ultimately have "dropWhile is_space (z @ b) = dropWhile is_space z @ []"
      by (simp only: append_Nil2)
    then show ?thesis by auto
  next
    case False
    then have "dropWhile is_space (z @ b) = dropWhile is_space z @ b"
      by (auto simp: dropWhile_append1)
    then show ?thesis using assms(2) by auto
  qed
  then obtain k where k: "dropWhile is_space (z @ b) = dropWhile is_space z @ k"
      "\<forall>c \<in> set k. is_space c"
    by blast
  have "dropWhile is_space (rev k @ rev (dropWhile is_space z))
      = dropWhile is_space (rev (dropWhile is_space z))"
  proof (rule dropWhile_append2)
    fix x assume "x \<in> set (rev k)"
    then show "is_space x" using k(2) by simp
  qed
  then have "dropWhile is_space (rev (dropWhile is_space z @ k))
      = dropWhile is_space (rev (dropWhile is_space z))"
    by simp
  then show ?thesis by (simp add: strip_def 1 k(1))
qed

lemma strip_decomp:
  "\<exists>a b. text = a @ strip text @ b \<and> (\<forall>c \<in> set a. is_space c) \<and> (\<forall>c \<in> set b. is_space c)"
proof -
  let ?d = "dropWhile is_space text"
  let ?a = "takeWhile is_space text"
  let ?b = "rev (takeWhile is_space (rev ?d))"
  have "rev (takeWhile is_space (rev ?d) @ dropWhile is_space (rev ?d)) = rev (rev ?d)"
    by (simp only: takeWhile_dropWhile_id)
  then have "rev (dropWhile is_space (rev ?d)) @ ?b = ?d"
    by (simp only: rev_append rev_rev_ident)
  then have "?d = strip text @ ?b" by (simp only: strip_def)
  then have "text = ?a @ strip text @ ?b"
    using takeWhile_dropWhile_id [of is_space "text"] by simp
  moreover have "\<forall>c \<in> set ?a. is_space c" by (auto dest: set_takeWhileD)
  moreover have "\<forall>c \<in> set ?b. is_space c" by (auto dest: set_takeWhileD)
  ultimately show ?thesis by blast
qed

lemma strip_Nil_iff: "(strip x = []) = (\<forall>c \<in> set x. is_space c)"
proof
  assume "strip x = []"
  with strip_decomp [of x] show "\<forall>c \<in> set x. is_space c" by (metis Un_iff append_Nil set_append)
next
  assume a: "\<forall>c \<in> set x. is_space c"
  have "strip (x @ [] @ []) = strip []" using a by (intro strip_ws_around) simp_all
  then show "strip x = []" by (simp add: strip_Nil)
qed

lemma strip_append_mid:
  assumes "a \<noteq> []" "\<not> is_space (last a)" "b \<noteq> []" "\<not> is_space (hd b)"
  shows "strip (a @ c # b) = strip a @ c # strip b"
proof -
  have la: "last a \<in> set a" and hb: "hd b \<in> set b" using assms by simp_all
  have 1: "dropWhile is_space (a @ c # b) = dropWhile is_space a @ c # b"
    using la assms(2) by (rule dropWhile_append1)
  have da: "dropWhile is_space a \<noteq> []" using la assms(2) by auto
  have "hd b \<in> set (rev b)" using hb by simp
  then have 2: "dropWhile is_space (rev b @ c # rev (dropWhile is_space a))
      = dropWhile is_space (rev b) @ c # rev (dropWhile is_space a)"
    using assms(4) by (rule dropWhile_append1)
  have keep: "dropWhile is_space t = t" if "t \<noteq> []" "\<not> is_space (hd t)" for t
    using that by (cases t) simp_all
  have "last (dropWhile is_space a) = last a"
    using da by (metis append_is_Nil_conv last_appendR takeWhile_dropWhile_id)
  then have "hd (rev (dropWhile is_space a)) = last a" using da by (simp add: hd_rev)
  then have sa: "strip a = dropWhile is_space a"
    using da assms(2) by (simp add: strip_def keep)
  have sb: "strip b = rev (dropWhile is_space (rev b))"
    using assms(3,4) by (simp add: strip_def keep)
  have "strip (a @ c # b) = dropWhile is_space a @ c # rev (dropWhile is_space (rev b))"
    by (simp add: strip_def 1 2)
  then show ?thesis by (simp only: sa sb)
qed

subsection \<open>Splitting, the main loop and joining\<close>

lemma split_space_append:
  "split_space (a @ CHR '' '' # b) = split_space a @ split_space b"
proof (induction a)
  case Nil
  then show ?case by simp
next
  case (Cons c cs)
  obtain p ps where p: "split_space cs = p # ps"
    using split_space_not_Nil [of cs] by (cases "split_space cs") auto
  with Cons show ?case by simp
qed

lemma for_parts_acc:
  "for_parts kb ps [] = Some r \<Longrightarrow> for_parts kb ps acc = Some (acc @ r)"
proof -
  assume a: "for_parts kb ps [] = Some r"
  have "\<exists>r'. for_parts kb ps acc' = Some (acc' @ r') \<and> for_parts kb ps [] = Some r'" for acc'
  proof (induction ps arbitrary: acc')
    case Nil
    then show ?case by simp
  next
    case (Cons part rest)
    show ?case
    proof (cases "part = []")
      case True
      with Cons [of acc'] show ?thesis by simp
    next
      case False
      from segment_result [of part kb] obtain a where a: "segment part kb = Some a" by auto
      from Cons [of "acc' @ a"] obtain r1 where r1: "for_parts kb rest (acc' @ a) = Some ((acc' @ a) @ r1)"
          "for_parts kb rest [] = Some r1" by auto
      from Cons [of a] r1(2) have "for_parts kb rest a = Some (a @ r1)" by auto
      then show ?thesis using False a r1(1) by simp
    qed
  qed
  with a show ?thesis by fastforce
qed

lemma for_parts_append:
  "for_parts kb ps [] = Some r \<Longrightarrow> for_parts kb qs [] = Some r'
     \<Longrightarrow> for_parts kb (ps @ qs) [] = Some (r @ r')"
proof -
  assume r: "for_parts kb ps [] = Some r" and r': "for_parts kb qs [] = Some r'"
  have "for_parts kb (ps @ qs) acc = Some (acc @ r0 @ r')"
    if "for_parts kb ps acc = Some (acc @ r0)" for acc r0
    using that
  proof (induction ps arbitrary: acc r0)
    case Nil
    then show ?case using for_parts_acc [OF r', of acc] by simp
  next
    case (Cons part rest)
    show ?case
    proof (cases "part = []")
      case True
      with Cons show ?thesis by simp
    next
      case False
      from segment_result [of part kb] obtain a where a: "segment part kb = Some a" by auto
      from for_parts_result [of kb rest "acc @ a"]
      obtain r1 where r1: "for_parts kb rest (acc @ a) = Some ((acc @ a) @ r1)" by auto
      have "r0 = a @ r1" using Cons.prems False a r1 by simp
      moreover have "for_parts kb (rest @ qs) (acc @ a) = Some ((acc @ a) @ r1 @ r')"
        by (rule Cons.IH [OF r1])
      ultimately show ?thesis using False a by simp
    qed
  qed
  from this [of "[]" r] r show ?thesis by simp
qed

lemma join_space_append:
  "fa \<noteq> [] \<Longrightarrow> fb \<noteq> [] \<Longrightarrow>
     join_space (fa @ fb) = join_space fa @ CHR '' '' # join_space fb"
proof (induction fa rule: join_space.induct)
  case 1
  then show ?case by simp
next
  case (2 p)
  then show ?case by (cases fb) simp_all
next
  case (3 p q ps)
  then show ?case by simp
qed

subsection \<open>White space at the ends, and spaces inside\<close>

lemma initial_parts_strip: "initial_parts text' = initial_parts (strip text')"
proof -
  from strip_decomp [of text'] obtain a b where d: "text' = a @ strip text' @ b"
      "\<forall>c \<in> set a. is_space c" "\<forall>c \<in> set b. is_space c"
    by blast
  let ?x = "strip text'"
  let ?y = "temp_processed ?x"
  have t: "temp_processed (a @ ?x @ b) = a @ ?y @ b"
    by (simp add: temp_processed_all_ws [OF d(2)] temp_processed_ws_end [OF d(3)])
  have "strip (collapse_spaces (a @ ?y @ b)) = strip (collapse_spaces ?y)"
  proof (cases "?x = []")
    case True
    then have y: "?y = []" by (simp add: temp_processed_Nil)
    have "\<forall>c \<in> set (collapse_spaces (a @ b)). is_space c"
      using d(2,3) set_collapse_spaces [of "a @ b"] by auto
    then have "strip (collapse_spaces (a @ b) @ [] @ []) = strip []"
      by (intro strip_ws_around) simp_all
    then show ?thesis using y by simp
  next
    case False
    with strip_ends [of text'] have e: "\<not> is_space (hd ?x)" "\<not> is_space (last ?x)" by simp_all
    have ny: "?y \<noteq> []" using False by (simp add: temp_processed_Nil_iff)
    have hy: "hd ?y \<noteq> CHR '' ''" using e(1) not_space_if by (simp add: hd_temp_processed)
    have ly: "last ?y \<noteq> CHR '' ''" using e(2) not_space_if by (simp add: last_temp_processed)
    have "collapse_spaces (a @ (?y @ b)) = collapse_spaces a @ collapse_spaces (?y @ b)"
      using ny hy by (intro collapse_spaces_append_hd) simp
    also have "collapse_spaces (?y @ b) = collapse_spaces ?y @ collapse_spaces b"
      using ly by (intro collapse_spaces_append_last) simp
    finally have c: "collapse_spaces (a @ ?y @ b)
        = collapse_spaces a @ collapse_spaces ?y @ collapse_spaces b" .
    have "\<forall>c \<in> set (collapse_spaces a). is_space c" "\<forall>c \<in> set (collapse_spaces b). is_space c"
      using d(2,3) set_collapse_spaces [of a] set_collapse_spaces [of b] by auto
    then show ?thesis by (simp only: c strip_ws_around)
  qed
  then have "initial_parts (a @ ?x @ b) = initial_parts ?x"
    by (simp only: initial_parts_def t)
  then show ?thesis using d(1) by simp
qed

lemma separate_strip:
  "separate_words_enhanced text' kb = separate_words_enhanced (strip text') kb"
proof (cases "strip text' = []")
  case False
  then have "text' \<noteq> []" by (auto simp: strip_Nil)
  then show ?thesis
    using False initial_parts_strip [of text'] by (simp add: separate_words_enhanced_def)
next
  case True
  then have ip: "initial_parts text' = initial_parts []"
    using initial_parts_strip [of text'] by simp
  have "initial_parts [] = [[]]"
    by (simp add: initial_parts_def temp_processed_Nil strip_Nil)
  then have "for_parts kb (initial_parts text') [] = Some []" using ip by simp
  then have "separate_words_enhanced text' kb = Some []"
    by (simp add: separate_words_enhanced_def strip_Nil)
  then show ?thesis using True by (simp add: separate_words_enhanced_def)
qed

lemma initial_parts_spaces:
  assumes "u \<noteq> []" "\<not> is_space (last u)" "v \<noteq> []" "\<not> is_space (hd v)"
  shows "initial_parts (u @ replicate (Suc n) CHR '' '' @ v) = initial_parts u @ initial_parts v"
proof -
  let ?tu = "temp_processed u" and ?tv = "temp_processed v"
  let ?cu = "collapse_spaces ?tu" and ?cv = "collapse_spaces ?tv"
  have nu: "?tu \<noteq> []" and nv: "?tv \<noteq> []"
    using assms(1,3) by (simp_all add: temp_processed_Nil_iff)
  have lu: "last ?tu \<noteq> CHR '' ''"
    using assms(2) not_space_if by (simp add: last_temp_processed)
  have hv: "hd ?tv \<noteq> CHR '' ''"
    using assms(4) not_space_if by (simp add: hd_temp_processed)
  have "collapse_spaces (?tu @ (replicate (Suc n) CHR '' '' @ ?tv))
      = ?cu @ collapse_spaces (replicate (Suc n) CHR '' '' @ ?tv)"
    using lu by (intro collapse_spaces_append_last) simp
  also have "collapse_spaces (replicate (Suc n) CHR '' '' @ ?tv) = CHR '' '' # ?cv"
    using hv by (intro collapse_spaces_replicate) simp
  finally have c: "collapse_spaces (?tu @ replicate (Suc n) CHR '' '' @ ?tv) = ?cu @ CHR '' '' # ?cv" .
  have ncu: "?cu \<noteq> []" and ncv: "?cv \<noteq> []"
    using nu nv by (simp_all add: collapse_spaces_Nil_iff)
  have "last ?cu = last u"
    using nu lu by (simp add: last_collapse_spaces last_temp_processed)
  then have lcu: "\<not> is_space (last ?cu)" using assms(2) by simp
  have "hd ?cv = hd v" by (simp add: hd_collapse_spaces hd_temp_processed)
  then have hcv: "\<not> is_space (hd ?cv)" using assms(4) by simp
  have s: "strip (?cu @ CHR '' '' # ?cv) = strip ?cu @ CHR '' '' # strip ?cv"
    by (rule strip_append_mid [OF ncu lcu ncv hcv])
  show ?thesis
    by (simp only: initial_parts_def temp_processed_spaces c s split_space_append)
qed

lemma separate_spaces_between:
  assumes "u \<noteq> []" "\<not> is_space (last u)" "v \<noteq> []" "\<not> is_space (hd v)"
  shows "\<exists>ru rv. separate_words_enhanced u kb = Some ru
     \<and> separate_words_enhanced v kb = Some rv \<and> ru \<noteq> [] \<and> rv \<noteq> []
     \<and> separate_words_enhanced (u @ replicate (Suc n) CHR '' '' @ v) kb
         = Some (ru @ CHR '' '' # rv)"
proof -
  let ?t = "u @ replicate (Suc n) CHR '' '' @ v"
  from separate_result [OF assms(1), of kb]
  obtain fu where fu: "for_parts kb (initial_parts u) [] = Some fu"
      "separate_words_enhanced u kb = Some (join_space fu)"
      "concat fu = concat (initial_parts u)" "[] \<notin> set fu"
    by blast
  from separate_result [OF assms(3), of kb]
  obtain fv where fv: "for_parts kb (initial_parts v) [] = Some fv"
      "separate_words_enhanced v kb = Some (join_space fv)"
      "concat fv = concat (initial_parts v)" "[] \<notin> set fv"
    by blast
  have nonempty: "concat (initial_parts w) \<noteq> []" if w: "c \<in> set w" "\<not> is_space c" for w c
  proof -
    have "c \<noteq> CHR '' ''" using w(2) not_space_if by simp
    then have "c \<in> set (remove_separators w)" using w(1) by (simp add: remove_separators_def)
    then have "strip (remove_separators w) \<noteq> []" using w(2) by (auto simp: strip_Nil_iff)
    then show ?thesis by (simp add: concat_initial_parts)
  qed
  have "last u \<in> set u" "hd v \<in> set v" using assms(1,3) by simp_all
  then have "concat fu \<noteq> []" "concat fv \<noteq> []"
    using nonempty assms(2,4) fu(3) fv(3) by auto
  then have ne: "fu \<noteq> []" "fv \<noteq> []" by auto
  then have nj: "join_space fu \<noteq> []" "join_space fv \<noteq> []"
    using fu(4) fv(4) by (simp_all add: join_space_Nil_iff)
  have nt: "?t \<noteq> []" using assms(1) by simp
  have "for_parts kb (initial_parts ?t) [] = Some (fu @ fv)"
    using for_parts_append [OF fu(1) fv(1)]
    by (simp only: initial_parts_spaces [OF assms])
  moreover from separate_result [OF nt, of kb]
  obtain ft where ft: "for_parts kb (initial_parts ?t) [] = Some ft"
      "separate_words_enhanced ?t kb = Some (join_space ft)"
    by blast
  ultimately have "separate_words_enhanced ?t kb = Some (join_space (fu @ fv))" by simp
  then have "separate_words_enhanced ?t kb = Some (join_space fu @ CHR '' '' # join_space fv)"
    using ne by (simp add: join_space_append)
  with fu(2) fv(2) nj show ?thesis by blast
qed

subsection \<open>The specification's boundary splitter and step 1 of the code\<close>












section \<open>The claims about the segmenter\<close>

text \<open>
  Claim C3. In the scan of a part, at a cursor \<open>pos\<close> inside the part, let \<open>e\<close> be the
  greatest end such that \<open>part[pos:e]\<close>, lower-cased, is in the word list. Then the inner
  loop selects exactly that substring; the scan returns the segments so far, then that
  substring in its original casing, then the segments \<open>r\<close> of the scan from \<open>e\<close>, which
  make up the rest of the part. For a part that is not itself a known word, with the
  cursor at 0, this list is what the segmenter returns. For the word list
  \<open>{the, them, hem}\<close> the longest match at 0 in \<open>them\<close> is the whole part, the segmenter
  returns \<open>[them]\<close> for it and \<open>[them, es]\<close> for \<open>themes\<close>.
\<close>

theorem greedy_longest_match:
  "(pos < length part \<and> pos < e \<and> e \<le> length part \<and> lower (slice part pos e) \<in> kb
      \<and> (\<forall>e'. e < e' \<and> e' \<le> length part \<longrightarrow> lower (slice part pos e') \<notin> kb)
    \<longrightarrow> best_match kb part pos = (int e, slice part pos e)
        \<and> scan_loop kb part pos acc = scan_loop kb part e (acc @ [slice part pos e])
        \<and> (\<exists>r. scan_loop kb part pos acc = Some (acc @ slice part pos e # r)
              \<and> scan_loop kb part e [] = Some r \<and> concat r = drop e part)
        \<and> (pos = 0 \<and> lower part \<notin> kb
              \<longrightarrow> (\<exists>r. segment part kb = Some (slice part 0 e # r) \<and> r \<noteq> []
                     \<and> scan_loop kb part e [] = Some r \<and> concat r = drop e part)))
   \<and> best_match {''the'', ''them'', ''hem''} ''them'' 0 = (4, ''them'')
   \<and> segment ''them'' {''the'', ''them'', ''hem''} = Some [''them'']
   \<and> segment ''themes'' {''the'', ''them'', ''hem''} = Some [''them'', ''es'']"
proof -
  have general: "best_match kb part pos = (int e, slice part pos e)
        \<and> scan_loop kb part pos acc = scan_loop kb part e (acc @ [slice part pos e])
        \<and> (\<exists>r. scan_loop kb part pos acc = Some (acc @ slice part pos e # r)
              \<and> scan_loop kb part e [] = Some r \<and> concat r = drop e part)
        \<and> (pos = 0 \<and> lower part \<notin> kb
              \<longrightarrow> (\<exists>r. segment part kb = Some (slice part 0 e # r) \<and> r \<noteq> []
                     \<and> scan_loop kb part e [] = Some r \<and> concat r = drop e part))"
    if h: "pos < length part \<and> pos < e \<and> e \<le> length part \<and> lower (slice part pos e) \<in> kb
      \<and> (\<forall>e'. e < e' \<and> e' \<le> length part \<longrightarrow> lower (slice part pos e') \<notin> kb)"
  proof -
    from h have a: "pos < length part" "pos < e" "e \<le> length part"
        "lower (slice part pos e) \<in> kb"
        "\<forall>e'. e < e' \<and> e' \<le> length part \<longrightarrow> lower (slice part pos e') \<notin> kb"
      by simp_all
    have 1: "best_match kb part pos = (int e, slice part pos e)"
      by (rule best_match_hit [OF a(2-5)])
    have 2: "scan_loop kb part pos acc = scan_loop kb part e (acc @ [slice part pos e])"
      by (rule scan_loop_hit [OF a])
    have 3: "\<exists>r. scan_loop kb part pos acc = Some (acc @ slice part pos e # r)
              \<and> scan_loop kb part e [] = Some r \<and> concat r = drop e part"
      by (rule scan_loop_longest [OF a])
    have 4: "\<exists>r. segment part kb = Some (slice part 0 e # r) \<and> r \<noteq> []
                     \<and> scan_loop kb part e [] = Some r \<and> concat r = drop e part"
      if z: "pos = 0 \<and> lower part \<notin> kb"
    proof -
      from scan_loop_longest [OF a, of "[]"] z
      obtain r where r: "scan_loop kb part 0 [] = Some (slice part 0 e # r)"
          "scan_loop kb part e [] = Some r" "concat r = drop e part"
        by auto
      have "e \<noteq> length part"
      proof
        assume "e = length part"
        then have "slice part pos e = part" using z by (simp add: slice_def)
        with a(4) z show False by simp
      qed
      then have "drop e part \<noteq> []" using a(3) by simp
      then have ne: "r \<noteq> []" using r(3) by auto
      then have "1 < length (slice part 0 e # r)" by (cases r) simp_all
      then have "segment part kb = Some (slice part 0 e # r)"
        using z r(1) by (simp add: segment_def)
      with ne r(2,3) show ?thesis by blast
    qed
    from 1 2 3 4 show ?thesis by blast
  qed
  have ex1: "best_match {''the'', ''them'', ''hem''} ''them'' 0 = (4, ''them'')"
    by code_simp
  have ex2: "segment ''them'' {''the'', ''them'', ''hem''} = Some [''them'']"
    by code_simp
  have ex3: "segment ''themes'' {''the'', ''them'', ''hem''} = Some [''them'', ''es'']"
    by code_simp
  from general ex1 ex2 ex3 show ?thesis by blast
qed

theorem greedy_longest_match_witness:
  "best_match {''the'', ''them'', ''hem''} ''themes'' 0 = (4, ''them'')
   \<and> scan_loop {''the'', ''them'', ''hem''} ''themes'' 0 []
       = scan_loop {''the'', ''them'', ''hem''} ''themes'' 4 [''them'']
   \<and> (\<exists>r. scan_loop {''the'', ''them'', ''hem''} ''themes'' 0 [] = Some (''them'' # r)
         \<and> scan_loop {''the'', ''them'', ''hem''} ''themes'' 4 [] = Some r \<and> concat r = ''es'')
   \<and> (\<exists>r. segment ''themes'' {''the'', ''them'', ''hem''} = Some (''them'' # r) \<and> r \<noteq> []
         \<and> scan_loop {''the'', ''them'', ''hem''} ''themes'' 4 [] = Some r \<and> concat r = ''es'')"
proof -
  let ?kb = "{''the'', ''them'', ''hem''}"
  let ?t = "''themes''"
  have a: "lower (slice ?t 0 4) \<in> ?kb" by code_simp
  have b: "lower (slice ?t 0 5) \<notin> ?kb" by code_simp
  have c: "lower (slice ?t 0 6) \<notin> ?kb" by code_simp
  have z: "(0::nat) = 0 \<and> lower ?t \<notin> ?kb" by code_simp
  have longest: "\<forall>e'. 4 < e' \<and> e' \<le> length ?t \<longrightarrow> lower (slice ?t 0 e') \<notin> ?kb"
  proof (intro allI impI)
    fix e' :: nat assume "4 < e' \<and> e' \<le> length ?t"
    then have "e' = 5 \<or> e' = 6" by auto
    then show "lower (slice ?t 0 e') \<notin> ?kb" using b c by auto
  qed
  have h: "0 < length ?t \<and> (0::nat) < 4 \<and> 4 \<le> length ?t \<and> lower (slice ?t 0 4) \<in> ?kb
      \<and> (\<forall>e'. 4 < e' \<and> e' \<le> length ?t \<longrightarrow> lower (slice ?t 0 e') \<notin> ?kb)"
    by (intro conjI a longest) simp_all
  note g = greedy_longest_match [of 0 ?t 4 ?kb "[]", THEN conjunct1, THEN mp, OF h]
  have s1: "slice ?t 0 4 = ''them''" by code_simp
  have s2: "drop 4 ?t = ''es''" by simp
  have 1: "best_match ?kb ?t 0 = (4, ''them'')"
    using g [THEN conjunct1] unfolding s1 by simp
  have 2: "scan_loop ?kb ?t 0 [] = scan_loop ?kb ?t 4 [''them'']"
    using g [THEN conjunct2, THEN conjunct1] unfolding s1 by simp
  have 3: "\<exists>r. scan_loop ?kb ?t 0 [] = Some (''them'' # r)
         \<and> scan_loop ?kb ?t 4 [] = Some r \<and> concat r = ''es''"
    using g [THEN conjunct2, THEN conjunct2, THEN conjunct1] unfolding s1 s2 by simp
  have 4: "\<exists>r. segment ?t ?kb = Some (''them'' # r) \<and> r \<noteq> []
         \<and> scan_loop ?kb ?t 4 [] = Some r \<and> concat r = ''es''"
    using g [THEN conjunct2, THEN conjunct2, THEN conjunct2, THEN mp, OF z] unfolding s1 s2 .
  show ?thesis by (intro conjI 1 2 3 4)
qed

text \<open>
  Claim C4. When no substring that starts at the cursor is a known word, the rest of the
  part is appended as one segment and the scan of the part is over; the part
  \<open>goldfishxyz\<close> with the word list \<open>{gold, fish}\<close> gives \<open>[gold, fish, xyz]\<close>.
\<close>

theorem unmatched_remainder_stops:
  "(pos < length part
      \<and> (\<forall>e. pos < e \<and> e \<le> length part \<longrightarrow> lower (slice part pos e) \<notin> kb)
    \<longrightarrow> scan_loop kb part pos acc = Some (acc @ [drop pos part]))
   \<and> segment ''goldfishxyz'' {''gold'', ''fish''} = Some [''gold'', ''fish'', ''xyz'']"
proof (intro conjI impI)
  assume "pos < length part
      \<and> (\<forall>e. pos < e \<and> e \<le> length part \<longrightarrow> lower (slice part pos e) \<notin> kb)"
  then show "scan_loop kb part pos acc = Some (acc @ [drop pos part])"
    by (intro scan_loop_miss) simp_all
next
  show "segment ''goldfishxyz'' {''gold'', ''fish''} = Some [''gold'', ''fish'', ''xyz'']"
    by code_simp
qed

theorem unmatched_remainder_stops_witness:
  "scan_loop {''gold'', ''fish''} ''goldfishxyz'' 8 [''gold'', ''fish'']
     = Some [''gold'', ''fish'', ''xyz'']"
proof -
  let ?kb = "{''gold'', ''fish''}"
  have a: "lower (slice ''goldfishxyz'' 8 9) \<notin> ?kb" by code_simp
  have b: "lower (slice ''goldfishxyz'' 8 10) \<notin> ?kb" by code_simp
  have c: "lower (slice ''goldfishxyz'' 8 11) \<notin> ?kb" by code_simp
  have "\<forall>e. 8 < e \<and> e \<le> length ''goldfishxyz'' \<longrightarrow> lower (slice ''goldfishxyz'' 8 e) \<notin> ?kb"
  proof (intro allI impI)
    fix e :: nat assume "8 < e \<and> e \<le> length ''goldfishxyz''"
    then have "e = 9 \<or> e = 10 \<or> e = 11" by auto
    then show "lower (slice ''goldfishxyz'' 8 e) \<notin> ?kb" using a b c by auto
  qed
  with unmatched_remainder_stops [of 8 "''goldfishxyz''" ?kb "[''gold'', ''fish'']"]
  show ?thesis by simp
qed

text \<open>
  Claim C5. When the scan of a part ends with exactly one segment, the segmenter
  returns the part itself as its only element; so it does for \<open>qzqzqz\<close> with any word
  list that contains no substring of it.
\<close>

theorem single_segment_suppressed:
  "(scan_loop kb t 0 [] = Some r \<and> length r = 1 \<longrightarrow> segment t kb = Some [t])
   \<and> ((\<forall>i j. i < j \<and> j \<le> length ''qzqzqz'' \<longrightarrow> lower (slice ''qzqzqz'' i j) \<notin> kb)
        \<longrightarrow> segment ''qzqzqz'' kb = Some [''qzqzqz''])"
proof (intro conjI impI)
  assume "scan_loop kb t 0 [] = Some r \<and> length r = 1"
  then show "segment t kb = Some [t]"
    by (simp add: segment_def)
next
  let ?t = "''qzqzqz''"
  assume none: "\<forall>i j. i < j \<and> j \<le> length ?t \<longrightarrow> lower (slice ?t i j) \<notin> kb"
  then have "lower (slice ?t 0 (length ?t)) \<notin> kb" by simp
  then have whole: "lower ?t \<notin> kb" by (simp add: slice_def)
  have "\<forall>e. 0 < e \<and> e \<le> length ?t \<longrightarrow> lower (slice ?t 0 e) \<notin> kb"
    using none by blast
  then have "scan_loop kb ?t 0 [] = Some ([] @ [drop 0 ?t])"
    by (intro scan_loop_miss) simp_all
  then show "segment ?t kb = Some [?t]"
    using whole by (simp add: segment_def)
qed

theorem single_segment_suppressed_witness:
  "scan_loop {''gold'', ''quiz''} ''qzqzqz'' 0 [] = Some [''qzqzqz'']
   \<and> segment ''qzqzqz'' {''gold'', ''quiz''} = Some [''qzqzqz'']"
proof -
  let ?kb = "{''gold'', ''quiz''}"
  let ?t = "''qzqzqz''"
  have run: "scan_loop ?kb ?t 0 [] = Some [?t] \<and> length [?t] = 1" by code_simp
  have tab: "\<forall>i \<in> set [0 ..< 7]. \<forall>j \<in> set [0 ..< 7]. i < j \<longrightarrow> lower (slice ?t i j) \<notin> ?kb"
    by code_simp
  have none: "\<forall>i j. i < j \<and> j \<le> length ?t \<longrightarrow> lower (slice ?t i j) \<notin> ?kb"
  proof (intro allI impI)
    fix i j :: nat assume "i < j \<and> j \<le> length ?t"
    then have "i \<in> set [0 ..< 7]" "j \<in> set [0 ..< 7]" "i < j" by simp_all
    with tab show "lower (slice ?t i j) \<notin> ?kb" by blast
  qed
  from single_segment_suppressed [of ?kb ?t "[?t]"] run none
  show ?thesis by blast
qed

text \<open>
  Claim C6. For every part and every word list the segmenter returns a sequence whose
  concatenation is the part, and every element of it but the last is, lower-cased, in
  the word list; only the last one can be an unmatched remainder.
\<close>

theorem segment_reconstructs_token:
  "\<exists>r. segment t kb = Some r \<and> concat r = t \<and> (\<forall>x \<in> set (butlast r). lower x \<in> kb)"
  using segment_result [of t kb] by blast

theorem segment_reconstructs_token_witness:
  "segment ''goldfishxyz'' {''gold'', ''fish''} = Some [''gold'', ''fish'', ''xyz'']
   \<and> concat [''gold'', ''fish'', ''xyz''] = ''goldfishxyz''
   \<and> lower ''gold'' \<in> {''gold'', ''fish''} \<and> lower ''fish'' \<in> {''gold'', ''fish''}"
proof -
  let ?kb = "{''gold'', ''fish''}"
  have run: "segment ''goldfishxyz'' ?kb = Some [''gold'', ''fish'', ''xyz'']" by code_simp
  from segment_reconstructs_token [of "''goldfishxyz''" ?kb] run
  have "concat [''gold'', ''fish'', ''xyz''] = ''goldfishxyz''
      \<and> (\<forall>x \<in> set (butlast [''gold'', ''fish'', ''xyz'']). lower x \<in> ?kb)"
    by auto
  with run show ?thesis by simp
qed

text \<open>
  Claim C10. The scanning loop returns for every part, every word list (the empty
  string may be in it), every cursor and every list of segments so far: a match found
  by the inner loop is never empty and ends after the cursor, within the part.
\<close>

theorem scan_loop_terminates:
  "(\<exists>r. scan_loop kb part pos acc = Some r)
   \<and> (\<forall>best_match_end best_match_word.
        best_match kb part pos = (best_match_end, best_match_word) \<and> best_match_end \<noteq> - 1
        \<longrightarrow> int pos < best_match_end \<and> best_match_end \<le> int (length part)
            \<and> best_match_word \<noteq> [])"
proof (rule conjI)
  show "\<exists>r. scan_loop kb part pos acc = Some r"
  proof (cases "pos \<le> length part")
    case True
    from scan_loop_result [OF True, of kb acc] show ?thesis by blast
  next
    case False
    then show ?thesis by (simp add: scan_loop_end)
  qed
next
  have "int pos < m \<and> m \<le> int (length part) \<and> w \<noteq> []"
    if h: "best_match kb part pos = (m, w) \<and> m \<noteq> - 1" for m w
  proof -
    from best_match_cases [of kb part pos] h
    obtain e where e: "pos < e" "e \<le> length part" "m = int e" "w = slice part pos e"
      by auto
    then have "w \<noteq> []" by (simp add: slice_def)
    with e show ?thesis by simp
  qed
  then show "\<forall>best_match_end best_match_word.
        best_match kb part pos = (best_match_end, best_match_word) \<and> best_match_end \<noteq> - 1
        \<longrightarrow> int pos < best_match_end \<and> best_match_end \<le> int (length part)
            \<and> best_match_word \<noteq> []"
    by blast
qed

theorem scan_loop_terminates_witness:
  "(\<exists>r. scan_loop {'''', ''ab''} ''abab'' 0 [] = Some r)
   \<and> best_match {'''', ''ab''} ''abab'' 0 = (2, ''ab'')
   \<and> int 0 < 2 \<and> (2::int) \<le> int (length ''abab'') \<and> ''ab'' \<noteq> []"
proof -
  let ?kb = "{'''', ''ab''}"
  have h: "best_match ?kb ''abab'' 0 = (2, ''ab'') \<and> (2::int) \<noteq> - 1" by code_simp
  from scan_loop_terminates [of ?kb "''abab''" 0 "[]"] h
  show ?thesis by blast
qed

section \<open>The claims about the whole function\<close>

text \<open>
  Claim C8. The function returns a result for every text and every word list, the
  empty ones included, and the empty text gives the empty result. No operation of the
  function can raise on a string and a set (slices, substitutions, \<open>strip\<close>,
  \<open>split\<close>, \<open>join\<close> and set membership are total), so the only way not to return is
  the scanning loop, whose model returns \<open>None\<close> when it does not end.
\<close>

theorem separate_total:
  "(\<exists>r. separate_words_enhanced text kb = Some r) \<and> separate_words_enhanced [] kb = Some []"
proof
  show "\<exists>r. separate_words_enhanced text kb = Some r"
  proof (cases "text = []")
    case True
    then show ?thesis by (simp add: separate_words_enhanced_def)
  next
    case False
    from separate_result [OF False, of kb] show ?thesis by blast
  qed
next
  show "separate_words_enhanced [] kb = Some []"
    by (simp add: separate_words_enhanced_def)
qed




text \<open>
  Claim C2, as stated, fails: \<open>myVar\<close> lower-cased is the known word \<open>myvar\<close>, but step 1
  splits the text at the case transition before the word list is looked at, and neither
  \<open>my\<close> nor \<open>Var\<close> is known; the result is \<open>my Var\<close>.
\<close>

theorem known_word_counterexample:
  "lower ''myVar'' \<in> {''myvar''}
   \<and> separate_words_enhanced ''myVar'' {''myvar''} = Some ''my Var''
   \<and> separate_words_enhanced ''myVar'' {''myvar''} \<noteq> Some ''myVar''"
  by code_simp

text \<open>
  Claim C2, amended. If boundary splitting leaves the text \<open>s\<close> as its single token and
  \<open>s\<close> lower-cased is in the word list, the function returns \<open>s\<close> unchanged.
\<close>

theorem known_single_token_unchanged:
  "split_boundaries s = [s] \<and> lower s \<in> kb \<longrightarrow> separate_words_enhanced s kb = Some s"
proof
  assume h: "split_boundaries s = [s] \<and> lower s \<in> kb"
  then have "s \<in> set (filter (\<lambda>part. part \<noteq> []) (initial_parts s))"
    by (simp add: split_boundaries_def)
  then have ne: "s \<noteq> []" by simp
  from separate_result [OF ne, of kb]
  obtain fp where fp: "for_parts kb (initial_parts s) [] = Some fp"
      "separate_words_enhanced s kb = Some (join_space fp)"
    by blast
  have "for_parts kb (initial_parts s) [] = for_parts kb [s] []"
    using h by (subst for_parts_skips_empty) (simp add: split_boundaries_def)
  also have "\<dots> = Some [s]" using h ne by (simp add: segment_def)
  finally have "fp = [s]" using fp(1) by simp
  then show "separate_words_enhanced s kb = Some s" using fp(2) by simp
qed

theorem known_single_token_unchanged_witness:
  "split_boundaries ''Game'' = [''Game''] \<and> lower ''Game'' \<in> {''game'', ''me''}
   \<and> separate_words_enhanced ''Game'' {''game'', ''me''} = Some ''Game''"
proof -
  have h: "split_boundaries ''Game'' = [''Game''] \<and> lower ''Game'' \<in> {''game'', ''me''}"
    by code_simp
  with known_single_token_unchanged [of "''Game''" "{''game'', ''me''}"]
  show ?thesis by blast
qed

text \<open>
  Claim C1, as stated, fails: for a tab followed by \<open>a\<close>, two spaces and \<open>b\<close> the result
  is \<open>a b\<close>. The tab and one of the two spaces of the text are gone, so the result
  is shorter than the text and no removal of separators from it gives the text back.
\<close>

theorem lossless_counterexample:
  "separate_words_enhanced (CHR 0x09 # ''a  b'') {} = Some ''a b''
   \<and> remove_separators ''a b'' \<noteq> CHR 0x09 # ''a  b''
   \<and> length ''a b'' < length (CHR 0x09 # ''a  b'')"
  by code_simp

text \<open>
  Claim C1, amended. Removing the spaces from the result gives the text with its leading
  and trailing white space stripped and its spaces removed: the other characters are
  neither added, removed nor reordered. In particular, for a text without spaces that
  neither starts nor ends with white space, the result without its spaces is the text.
\<close>

theorem lossless_up_to_white_space:
  "\<exists>r. separate_words_enhanced text kb = Some r
     \<and> remove_separators r = remove_separators (strip text)
     \<and> (CHR '' '' \<notin> set text \<and> (text = [] \<or> (\<not> is_space (hd text) \<and> \<not> is_space (last text)))
          \<longrightarrow> remove_separators r = text)"
proof -
  have main: "\<exists>r. separate_words_enhanced text kb = Some r
     \<and> remove_separators r = remove_separators (strip text)"
  proof (cases "text = []")
    case True
    then show ?thesis by (simp add: separate_words_enhanced_def strip_Nil)
  next
    case False
    from separate_result [OF False, of kb]
    obtain fp where fp: "separate_words_enhanced text kb = Some (join_space fp)"
        "concat fp = concat (initial_parts text)"
      by blast
    have "remove_separators (join_space fp) = remove_separators (concat fp)"
      by (rule remove_separators_join_space)
    also have "\<dots> = remove_separators (strip (remove_separators text))"
      by (simp only: fp(2) concat_initial_parts)
    also have "\<dots> = strip (remove_separators (remove_separators text))"
      by (rule remove_separators_strip)
    also have "\<dots> = strip (remove_separators text)"
      by (simp add: remove_separators_id remove_separators_no_space)
    also have "\<dots> = remove_separators (strip text)"
      by (rule remove_separators_strip [symmetric])
    finally show ?thesis using fp(1) by blast
  qed
  then obtain r where r: "separate_words_enhanced text kb = Some r"
      "remove_separators r = remove_separators (strip text)"
    by blast
  have "remove_separators r = text"
    if h: "CHR '' '' \<notin> set text \<and> (text = [] \<or> (\<not> is_space (hd text) \<and> \<not> is_space (last text)))"
  proof -
    from h have "strip text = text" by (intro strip_id) simp
    then show ?thesis using r(2) h by (simp add: remove_separators_id)
  qed
  with r show ?thesis by blast
qed

theorem lossless_up_to_white_space_witness:
  "separate_words_enhanced ''HTMLParserGame2000'' {''html'', ''parser'', ''game''}
     = Some ''HTML Parser Game 2000''
   \<and> remove_separators ''HTML Parser Game 2000'' = ''HTMLParserGame2000''"
proof -
  let ?t = "''HTMLParserGame2000''"
  let ?kb = "{''html'', ''parser'', ''game''}"
  have run: "separate_words_enhanced ?t ?kb = Some ''HTML Parser Game 2000''" by code_simp
  have h: "CHR '' '' \<notin> set ?t \<and> (?t = [] \<or> (\<not> is_space (hd ?t) \<and> \<not> is_space (last ?t)))"
    by code_simp
  from lossless_up_to_white_space [of ?t ?kb] run h
  have "remove_separators ''HTML Parser Game 2000'' = ?t" by auto
  with run show ?thesis by simp
qed

text \<open>
  Claim C9. Spaces of the text separate parts as the inserted ones do.
  \<^item> The result never has two spaces in a row and neither starts nor ends with white
    space; so the function is not the identity on a text with a run of spaces, or with
    white space at its start or at its end.
  \<^item> White space at the ends is removed: the result is that of the stripped text.
  \<^item> A run of one or more spaces between \<open>u\<close> and \<open>v\<close> becomes one space, and the two
    sides are handled apart: the result is the result for \<open>u\<close>, one space, and the
    result for \<open>v\<close> (\<open>u\<close> not ending and \<open>v\<close> not starting with white space).
  \<^item> Where step 1 inserts a boundary between \<open>u\<close> and \<open>v\<close>, the result is the one for
    the text with a space written there.
\<close>

theorem existing_spaces_normalised:
  "(\<exists>r. separate_words_enhanced text kb = Some r
     \<and> \<not> has_space_run r
     \<and> (r = [] \<or> (\<not> is_space (hd r) \<and> \<not> is_space (last r)))
     \<and> (has_space_run text \<or> (text \<noteq> [] \<and> (is_space (hd text) \<or> is_space (last text)))
          \<longrightarrow> r \<noteq> text))
   \<and> separate_words_enhanced text kb = separate_words_enhanced (strip text) kb
   \<and> (u \<noteq> [] \<and> \<not> is_space (last u) \<and> v \<noteq> [] \<and> \<not> is_space (hd v)
        \<longrightarrow> (\<exists>ru rv. separate_words_enhanced u kb = Some ru
              \<and> separate_words_enhanced v kb = Some rv \<and> ru \<noteq> [] \<and> rv \<noteq> []
              \<and> separate_words_enhanced (u @ replicate (Suc n) CHR '' '' @ v) kb
                  = Some (ru @ CHR '' '' # rv)))
   \<and> (temp_processed (u @ v) = temp_processed u @ CHR '' '' # temp_processed v
        \<longrightarrow> separate_words_enhanced (u @ v) kb = separate_words_enhanced (u @ CHR '' '' # v) kb)"
proof -
  have main: "\<exists>r. separate_words_enhanced text kb = Some r \<and> \<not> has_space_run r
     \<and> (r = [] \<or> (\<not> is_space (hd r) \<and> \<not> is_space (last r)))"
  proof (cases "text = []")
    case True
    then show ?thesis by (simp add: separate_words_enhanced_def)
  next
    case False
    from separate_result [OF False, of kb]
    obtain fp where fp: "separate_words_enhanced text kb = Some (join_space fp)"
        "concat fp = concat (initial_parts text)" "[] \<notin> set fp"
      by blast
    have "\<not> has_space_run (join_space fp)"
      using fp(3) final_parts_no_space [OF fp(2)] by (rule join_space_no_run)
    with fp(1) final_parts_ends [OF fp(2,3)] show ?thesis by blast
  qed
  then obtain r where r: "separate_words_enhanced text kb = Some r" "\<not> has_space_run r"
      "r = [] \<or> (\<not> is_space (hd r) \<and> \<not> is_space (last r))"
    by blast
  have "r \<noteq> text"
    if "has_space_run text \<or> (text \<noteq> [] \<and> (is_space (hd text) \<or> is_space (last text)))"
    using that r(2,3) by auto
  with r have 1: "\<exists>r. separate_words_enhanced text kb = Some r
     \<and> \<not> has_space_run r
     \<and> (r = [] \<or> (\<not> is_space (hd r) \<and> \<not> is_space (last r)))
     \<and> (has_space_run text \<or> (text \<noteq> [] \<and> (is_space (hd text) \<or> is_space (last text)))
          \<longrightarrow> r \<noteq> text)"
    by blast
  have 2: "separate_words_enhanced text kb = separate_words_enhanced (strip text) kb"
    by (rule separate_strip)
  have 3: "\<exists>ru rv. separate_words_enhanced u kb = Some ru
              \<and> separate_words_enhanced v kb = Some rv \<and> ru \<noteq> [] \<and> rv \<noteq> []
              \<and> separate_words_enhanced (u @ replicate (Suc n) CHR '' '' @ v) kb
                  = Some (ru @ CHR '' '' # rv)"
    if "u \<noteq> [] \<and> \<not> is_space (last u) \<and> v \<noteq> [] \<and> \<not> is_space (hd v)"
    using that by (intro separate_spaces_between) simp_all
  have 4: "separate_words_enhanced (u @ v) kb = separate_words_enhanced (u @ CHR '' '' # v) kb"
    if t: "temp_processed (u @ v) = temp_processed u @ CHR '' '' # temp_processed v"
  proof -
    have "temp_processed (u @ CHR '' '' # v) = temp_processed (u @ v)"
      using temp_processed_ws [OF is_space_space, of u v] t by simp
    then have i: "initial_parts (u @ CHR '' '' # v) = initial_parts (u @ v)"
      by (simp add: initial_parts_def)
    have n1: "u @ v \<noteq> []"
    proof
      assume "u @ v = []"
      with t show False by (simp add: temp_processed_Nil)
    qed
    have n2: "u @ CHR '' '' # v \<noteq> []" by simp
    show ?thesis by (simp only: separate_words_enhanced_def i n1 n2 if_False)
  qed
  from 1 2 3 4 show ?thesis by blast
qed

theorem existing_spaces_normalised_witness:
  "separate_words_enhanced '' gold  fish '' {''gold''} = Some ''gold fish''
   \<and> has_space_run '' gold  fish '' \<and> is_space (hd '' gold  fish '')
   \<and> is_space (last '' gold  fish '')
   \<and> \<not> has_space_run ''gold fish'' \<and> ''gold fish'' \<noteq> '' gold  fish ''
   \<and> separate_words_enhanced ''gold'' {''gold''} = Some ''gold''
   \<and> separate_words_enhanced ''fish'' {''gold''} = Some ''fish''
   \<and> separate_words_enhanced ''gold  fish'' {''gold''} = Some ''gold fish''
   \<and> separate_words_enhanced ''goldFish'' {''gold''}
       = separate_words_enhanced ''gold Fish'' {''gold''}"
proof -
  let ?t = "'' gold  fish ''"
  let ?kb = "{''gold''}"
  note inst = existing_spaces_normalised [of ?t ?kb "''gold''" "''fish''" "Suc 0"]
  have run: "separate_words_enhanced ?t ?kb = Some ''gold fish''" by code_simp
  have h: "has_space_run ?t \<and> is_space (hd ?t) \<and> is_space (last ?t)" by code_simp
  from inst [THEN conjunct1] run h
  have a: "\<not> has_space_run ''gold fish'' \<and> ''gold fish'' \<noteq> ?t" by auto
  have ends: "''gold'' \<noteq> [] \<and> \<not> is_space (last ''gold'') \<and> ''fish'' \<noteq> []
      \<and> \<not> is_space (hd ''fish'')"
    by code_simp
  have ru: "separate_words_enhanced ''gold'' ?kb = Some ''gold''" by code_simp
  have rv: "separate_words_enhanced ''fish'' ?kb = Some ''fish''" by code_simp
  from inst [THEN conjunct2, THEN conjunct2, THEN conjunct1, THEN mp, OF ends] ru rv
  have "separate_words_enhanced (''gold'' @ replicate (Suc (Suc 0)) CHR '' '' @ ''fish'') ?kb
      = Some (''gold'' @ CHR '' '' # ''fish'')"
    by auto
  then have b: "separate_words_enhanced ''gold  fish'' ?kb = Some ''gold fish''" by simp
  have ins: "temp_processed (''gold'' @ ''Fish'')
      = temp_processed ''gold'' @ CHR '' '' # temp_processed ''Fish''"
    by code_simp
  from existing_spaces_normalised [of ?t ?kb "''gold''" "''Fish''" 0, THEN conjunct2,
      THEN conjunct2, THEN conjunct2, THEN mp, OF ins]
  have c: "separate_words_enhanced ''goldFish'' ?kb = separate_words_enhanced ''gold Fish'' ?kb"
    by simp
  show ?thesis using run h a ru rv b c by simp
qed

end
